theory Spec2Isabelle
  imports Main "HOL-Library.Sublist"
begin

section \<open>The remote-module resolver plugin of niht-chef\<close>

text \<open>
  The function \<^verbatim>\<open>http()\<close> of \<^verbatim>\<open>src/index.js\<close> (lines 235-278) builds a bundler plugin
  with two hooks, \<^verbatim>\<open>resolveId\<close> and \<^verbatim>\<open>load\<close>, that share one \<^verbatim>\<open>Map\<close> called
  \<^verbatim>\<open>urls\<close>. A second copy of the same function is in \<^verbatim>\<open>src/unnamed/part_000\<close>
  (lines 180-221).

  JavaScript strings are modelled as \<^typ>\<open>string\<close>. The code compares code units only with
  the ASCII characters of \<^verbatim>\<open>http://\<close>, \<^verbatim>\<open>https://\<close>, \<^verbatim>\<open>/\<close> and \<^verbatim>\<open>.\<close>, so the width of
  a code unit plays no part.
\<close>

subsection \<open>Values, records and the state\<close>

text \<open>The two modules of \<^verbatim>\<open>follow-redirects\<close> the inner \<^verbatim>\<open>load\<close> selects from.\<close>

datatype transport = Http | Https

text \<open>One call \<^verbatim>\<open>http.get(url, ...)\<close> on the selected module.\<close>

record request =
  transport :: transport
  target :: string

text \<open>
  The JavaScript values the two hooks return or use as keys: \<^verbatim>\<open>undefined\<close>, a string, or
  the promise the inner \<^verbatim>\<open>load\<close> creates, which settles with the body of the request it
  has issued.
\<close>

datatype jsval = Undefined | Str string | Promise request

text \<open>The object literal \<^verbatim>\<open>{ isHttps: ..., url: id }\<close> built by \<^verbatim>\<open>resolveId\<close>.\<close>

record id_record =
  isHttps :: bool
  url :: string

text \<open>
  The state the hooks act on: the closure variable \<^verbatim>\<open>urls\<close> (a \<^verbatim>\<open>Map\<close>, never iterated,
  so its insertion order is left out) and the sequence of \<^verbatim>\<open>get\<close> calls made so far on the
  network client, oldest first.
\<close>

record world =
  urls :: "jsval \<rightharpoonup> id_record"
  net_log :: "request list"

text \<open>\<^verbatim>\<open>http()\<close> starts with \<^verbatim>\<open>new Map()\<close>; the calls already made are whatever they are.\<close>

definition http :: "request list \<Rightarrow> world" where
  "http log = \<lparr>urls = Map.empty, net_log = log\<rparr>"

subsection \<open>The built-ins the hooks call\<close>

text \<open>
  \<^verbatim>\<open>/^https?:\/\//.exec(s)\<close>: the regular expression has no \<^verbatim>\<open>g\<close> or \<^verbatim>\<open>y\<close> flag, so
  \<^verbatim>\<open>exec\<close> keeps no position between calls. The result is the matched text
  (\<^verbatim>\<open>match[0]\<close>) or nothing (\<^verbatim>\<open>null\<close>). After \<^verbatim>\<open>http\<close> the optional \<^verbatim>\<open>s\<close> is tried
  first; without it \<^verbatim>\<open>://\<close> must follow at once.
\<close>

definition httpExp_exec :: "string \<Rightarrow> string option" where
  "httpExp_exec s =
     (if take 4 s = ''http'' then
        (if take 4 (drop 4 s) = ''s://'' then Some (take 8 s)
         else if take 3 (drop 4 s) = ''://'' then Some (take 7 s)
         else None)
      else None)"

text \<open>
  \<^verbatim>\<open>s.lastIndexOf(c)\<close> for a one-character search string: the search runs from the end
  of \<^verbatim>\<open>s\<close>; the result is the index of the first hit, which is the number of characters
  in front of it, or \<open>-1\<close>.
\<close>

definition lastIndexOf :: "string \<Rightarrow> char \<Rightarrow> int" where
  "lastIndexOf s c =
     (case dropWhile (\<lambda>x. x \<noteq> c) (rev s) of
        [] \<Rightarrow> - 1
      | _ # earlier \<Rightarrow> int (length earlier))"

text \<open>
  \<^verbatim>\<open>s.substr(start)\<close> with no length: a negative start counts from the end and stops at
  0, a start beyond the end gives the empty string.
\<close>

definition substr :: "string \<Rightarrow> int \<Rightarrow> string" where
  "substr s start =
     (let size = int (length s);
          first = (if start < 0 then max (size + start) 0 else min start size)
      in drop (nat first) s)"

text \<open>
  \<^verbatim>\<open>s.split(c)\<close> for a one-character separator and no limit: the pieces between the
  separators, in order; the empty string gives one empty piece. \<open>acc\<close> holds the piece
  being read, reversed.
\<close>

fun split_loop :: "char \<Rightarrow> string \<Rightarrow> string \<Rightarrow> string list" where
  "split_loop c acc [] = [rev acc]"
| "split_loop c acc (x # xs) =
     (if x = c then rev acc # split_loop c [] xs else split_loop c (x # acc) xs)"

definition split :: "string \<Rightarrow> char \<Rightarrow> string list" where
  "split s c = split_loop c [] s"

text \<open>
  \<^verbatim>\<open>a.shift()\<close>: the first element of the array, \<^verbatim>\<open>undefined\<close> when the array is empty.
  The array is a temporary here, so the removal itself is not modelled.
\<close>

definition shift :: "string list \<Rightarrow> jsval" where
  "shift a = (case a of [] \<Rightarrow> Undefined | x # _ \<Rightarrow> Str x)"

subsection \<open>The plugin of \<^verbatim>\<open>src/index.js\<close>\<close>

text \<open>
  The inner \<^verbatim>\<open>function load(url, isHttps)\<close>: it picks the module and returns a new
  promise whose executor, run at once, calls \<^verbatim>\<open>http.get(url, ...)\<close>.
\<close>

definition http_load :: "world \<Rightarrow> string \<Rightarrow> bool \<Rightarrow> jsval \<times> world" where
  "http_load w u s =
     (let req = \<lparr>transport = (if s then Https else Http), target = u\<rparr>
      in (Promise req, w\<lparr>net_log := net_log w @ [req]\<rparr>))"

text \<open>The hook \<^verbatim>\<open>resolveId(id)\<close>: the value returned and the state it leaves.\<close>

definition resolveId :: "world \<Rightarrow> string \<Rightarrow> jsval \<times> world" where
  "resolveId w idn =
     (case httpExp_exec idn of
        Some m \<Rightarrow>
          (let rcd = \<lparr>isHttps = (m = ''https://''), url = idn\<rparr>;
               idx = lastIndexOf idn CHR ''/'';
               pth = substr idn (idx + 1);
               newId = shift (split pth CHR ''.'')
           in (newId, w\<lparr>urls := (urls w)(newId \<mapsto> rcd)\<rparr>))
      | None \<Rightarrow> (Undefined, w))"

text \<open>The hook \<^verbatim>\<open>load(id)\<close>; the host passes the module id, a string.\<close>

definition load :: "world \<Rightarrow> string \<Rightarrow> jsval \<times> world" where
  "load w idn =
     (case urls w (Str idn) of
        Some rcd \<Rightarrow> http_load w (url rcd) (isHttps rcd)
      | None \<Rightarrow> (Undefined, w))"

subsection \<open>The plugin of \<^verbatim>\<open>src/unnamed/part_000\<close>\<close>

definition httpExp_exec_part_000 :: "string \<Rightarrow> string option" where
  "httpExp_exec_part_000 s =
     (if take 4 s = ''http'' then
        (if take 4 (drop 4 s) = ''s://'' then Some (take 8 s)
         else if take 3 (drop 4 s) = ''://'' then Some (take 7 s)
         else None)
      else None)"

definition http_load_part_000 :: "world \<Rightarrow> string \<Rightarrow> bool \<Rightarrow> jsval \<times> world" where
  "http_load_part_000 w u s =
     (let req = \<lparr>transport = (if s then Https else Http), target = u\<rparr>
      in (Promise req, w\<lparr>net_log := net_log w @ [req]\<rparr>))"

definition resolveId_part_000 :: "world \<Rightarrow> string \<Rightarrow> jsval \<times> world" where
  "resolveId_part_000 w idn =
     (case httpExp_exec_part_000 idn of
        Some m \<Rightarrow>
          (let rcd = \<lparr>isHttps = (m = ''https://''), url = idn\<rparr>;
               idx = lastIndexOf idn CHR ''/'';
               pth = substr idn (idx + 1);
               newId = shift (split pth CHR ''.'')
           in (newId, w\<lparr>urls := (urls w)(newId \<mapsto> rcd)\<rparr>))
      | None \<Rightarrow> (Undefined, w))"

definition load_part_000 :: "world \<Rightarrow> string \<Rightarrow> jsval \<times> world" where
  "load_part_000 w idn =
     (case urls w (Str idn) of
        Some rcd \<Rightarrow> http_load_part_000 w (url rcd) (isHttps rcd)
      | None \<Rightarrow> (Undefined, w))"

subsection \<open>Sequences of hook calls\<close>

text \<open>The host calls the two hooks in any order; a run threads the state through.\<close>

datatype call = ResolveId string | Load string

fun step :: "world \<Rightarrow> call \<Rightarrow> world" where
  "step w (ResolveId s) = snd (resolveId w s)"
| "step w (Load k) = snd (load w k)"

fun run :: "world \<Rightarrow> call list \<Rightarrow> world" where
  "run w [] = w"
| "run w (c # cs) = run (step w c) cs"

text \<open>The values the \<^verbatim>\<open>resolveId\<close> calls of a run return, in order.\<close>

fun returned :: "world \<Rightarrow> call list \<Rightarrow> jsval list" where
  "returned w [] = []"
| "returned w (ResolveId s # cs) = fst (resolveId w s) # returned (step w (ResolveId s)) cs"
| "returned w (Load k # cs) = returned (step w (Load k)) cs"

subsection \<open>The specification's words\<close>

text \<open>A specifier matches the pattern when it begins with one of the two schemes.\<close>

definition matches_httpExp :: "string \<Rightarrow> bool" where
  "matches_httpExp s = (prefix ''http://'' s \<or> prefix ''https://'' s)"

text \<open>The substring after the last \<^verbatim>\<open>/\<close> (the whole string when there is none).\<close>

definition after_last_slash :: "string \<Rightarrow> string" where
  "after_last_slash s = rev (takeWhile (\<lambda>x. x \<noteq> CHR ''/'') (rev s))"

text \<open>A string truncated at its first \<^verbatim>\<open>.\<close>.\<close>

definition truncate_at_dot :: "string \<Rightarrow> string" where
  "truncate_at_dot s = takeWhile (\<lambda>x. x \<noteq> CHR ''.'') s"

text \<open>The short identifier: the text after the last \<^verbatim>\<open>/\<close>, truncated at its first \<^verbatim>\<open>.\<close>.\<close>

definition short_id :: "string \<Rightarrow> string" where
  "short_id s = truncate_at_dot (after_last_slash s)"

section \<open>Properties\<close>

subsection \<open>The built-ins\<close>

lemma split_loop_first:
  "\<exists>rest. split_loop c acc xs = (rev acc @ takeWhile (\<lambda>x. x \<noteq> c) xs) # rest"
proof (induction xs arbitrary: acc)
  case Nil
  show ?case by simp
next
  case (Cons x xs)
  show ?case
  proof (cases "x = c")
    case True
    then show ?thesis by simp
  next
    case False
    with Cons [of "x # acc"] show ?thesis by simp
  qed
qed

lemma shift_split: "shift (split s c) = Str (takeWhile (\<lambda>x. x \<noteq> c) s)"
proof -
  obtain rest where "split_loop c [] s = takeWhile (\<lambda>x. x \<noteq> c) s # rest"
    using split_loop_first [of c "[]" s] by auto
  then show ?thesis by (simp add: shift_def split_def)
qed

lemma substr_lastIndexOf:
  "substr s (lastIndexOf s c + 1) = rev (takeWhile (\<lambda>x. x \<noteq> c) (rev s))"
proof (cases "dropWhile (\<lambda>x. x \<noteq> c) (rev s)")
  case Nil
  then have tw: "takeWhile (\<lambda>x. x \<noteq> c) (rev s) = rev s"
    by (metis append_Nil2 takeWhile_dropWhile_id)
  have "lastIndexOf s c = - 1"
    unfolding lastIndexOf_def Nil by simp
  then show ?thesis
    unfolding tw by (simp add: substr_def)
next
  case (Cons y earlier)
  have "rev s = takeWhile (\<lambda>x. x \<noteq> c) (rev s) @ y # earlier"
    using Cons by (metis takeWhile_dropWhile_id)
  then have s: "s = rev earlier @ y # rev (takeWhile (\<lambda>x. x \<noteq> c) (rev s))"
    by (metis rev_append rev.simps(2) rev_rev_ident append_assoc append_Cons append_Nil)
  have "drop (Suc (length earlier)) s = rev (takeWhile (\<lambda>x. x \<noteq> c) (rev s))"
    by (subst s) simp
  moreover have "length earlier < length s"
    by (subst s) simp
  moreover have "lastIndexOf s c = int (length earlier)"
    unfolding lastIndexOf_def Cons by simp
  ultimately show ?thesis
    by (simp add: substr_def Let_def nat_add_distrib min_def)
qed

lemma prefix_take: "prefix p s \<longleftrightarrow> take (length p) s = p"
  by (metis append_eq_conv_conj prefix_def take_is_prefix)

lemma take_8_parts: "take 8 s = take 4 s @ take 4 (drop 4 s)"
  using take_add [of 4 4 s] by simp

lemma take_7_parts: "take 7 s = take 4 s @ take 3 (drop 4 s)"
  using take_add [of 4 3 s] by simp

lemma take_len: "take n s = p \<Longrightarrow> length p = n \<Longrightarrow> n \<le> length s"
  by (metis length_take min_def nat_le_linear)

lemma https_split: "take 8 s = ''https://'' \<longleftrightarrow> take 4 s = ''http'' \<and> take 4 (drop 4 s) = ''s://''"
proof
  assume a: "take 8 s = ''https://''"
  then have "8 \<le> length s" by (rule take_len) simp
  then have "length (take 4 s) = 4" by simp
  with a show "take 4 s = ''http'' \<and> take 4 (drop 4 s) = ''s://''"
    unfolding take_8_parts by (simp add: append_eq_conv_conj)
next
  assume "take 4 s = ''http'' \<and> take 4 (drop 4 s) = ''s://''"
  then show "take 8 s = ''https://''" unfolding take_8_parts by simp
qed

lemma http_split: "take 7 s = ''http://'' \<longleftrightarrow> take 4 s = ''http'' \<and> take 3 (drop 4 s) = ''://''"
proof
  assume a: "take 7 s = ''http://''"
  then have "7 \<le> length s" by (rule take_len) simp
  then have "length (take 4 s) = 4" by simp
  with a show "take 4 s = ''http'' \<and> take 3 (drop 4 s) = ''://''"
    unfolding take_7_parts by (simp add: append_eq_conv_conj)
next
  assume "take 4 s = ''http'' \<and> take 3 (drop 4 s) = ''://''"
  then show "take 7 s = ''http://''" unfolding take_7_parts by simp
qed

lemma httpExp_exec_eq:
  "httpExp_exec s =
     (if prefix ''https://'' s then Some ''https://''
      else if prefix ''http://'' s then Some ''http://'' else None)"
proof -
  have l8: "length ''https://'' = 8" and l7: "length ''http://'' = 7"
    by simp_all
  have p8: "prefix ''https://'' s \<longleftrightarrow> take 4 s = ''http'' \<and> take 4 (drop 4 s) = ''s://''"
    using prefix_take [of "''https://''" s] unfolding l8 https_split .
  have p7: "prefix ''http://'' s \<longleftrightarrow> take 4 s = ''http'' \<and> take 3 (drop 4 s) = ''://''"
    using prefix_take [of "''http://''" s] unfolding l7 http_split .
  have t8: "take 4 s = ''http'' \<Longrightarrow> take 4 (drop 4 s) = ''s://'' \<Longrightarrow> take 8 s = ''https://''"
    using https_split [of s] by simp
  have t7: "take 4 s = ''http'' \<Longrightarrow> take 3 (drop 4 s) = ''://'' \<Longrightarrow> take 7 s = ''http://''"
    using http_split [of s] by simp
  show ?thesis
    unfolding p8 p7 httpExp_exec_def by (simp add: t8 t7)
qed

subsection \<open>The two hooks\<close>

lemma resolveId_matches:
  assumes "matches_httpExp s"
  shows "resolveId w s =
    (Str (short_id s),
     w\<lparr>urls := (urls w)(Str (short_id s) \<mapsto> \<lparr>isHttps = prefix ''https://'' s, url = s\<rparr>)\<rparr>)"
proof -
  have id: "shift (split (substr s (lastIndexOf s CHR ''/'' + 1)) CHR ''.'') = Str (short_id s)"
    by (simp add: shift_split substr_lastIndexOf short_id_def truncate_at_dot_def
        after_last_slash_def)
  show ?thesis
  proof (cases "prefix ''https://'' s")
    case True
    then have "httpExp_exec s = Some ''https://''" by (simp add: httpExp_exec_eq)
    then show ?thesis using True by (simp add: resolveId_def id Let_def)
  next
    case False
    with assms have "httpExp_exec s = Some ''http://''"
      by (simp add: httpExp_exec_eq matches_httpExp_def)
    then show ?thesis using False by (simp add: resolveId_def id Let_def)
  qed
qed

lemma resolveId_no_match:
  assumes "\<not> matches_httpExp s"
  shows "resolveId w s = (Undefined, w)"
proof -
  from assms have "httpExp_exec s = None"
    by (simp add: httpExp_exec_eq matches_httpExp_def)
  then show ?thesis by (simp add: resolveId_def)
qed

lemma load_present:
  "urls w (Str k) = Some r \<Longrightarrow>
   load w k =
     (Promise \<lparr>transport = (if isHttps r then Https else Http), target = url r\<rparr>,
      w\<lparr>net_log := net_log w @ [\<lparr>transport = (if isHttps r then Https else Http), target = url r\<rparr>]\<rparr>)"
  by (simp add: load_def http_load_def Let_def)

lemma load_absent: "urls w (Str k) = None \<Longrightarrow> load w k = (Undefined, w)"
  by (simp add: load_def)

lemma urls_load: "urls (snd (load w k)) = urls w"
  by (cases "urls w (Str k)") (simp_all add: load_absent load_present)

lemma urls_resolveId_other:
  "fst (resolveId w s) \<noteq> j \<Longrightarrow> urls (snd (resolveId w s)) j = urls w j"
  by (cases "matches_httpExp s") (auto simp add: resolveId_matches resolveId_no_match)

lemma net_log_resolveId: "net_log (snd (resolveId w s)) = net_log w"
  by (cases "matches_httpExp s") (simp_all add: resolveId_matches resolveId_no_match)

lemma run_keeps_entry:
  "urls w j = Some r \<Longrightarrow> j \<notin> set (returned w cs) \<Longrightarrow> urls (run w cs) j = Some r"
proof (induction cs arbitrary: w)
  case Nil
  then show ?case by simp
next
  case (Cons c cs)
  show ?case
  proof (cases c)
    case (ResolveId s)
    with Cons.prems have "fst (resolveId w s) \<noteq> j" and "j \<notin> set (returned (step w c) cs)"
      by auto
    moreover from this Cons.prems have "urls (step w c) j = Some r"
      using ResolveId by (simp add: urls_resolveId_other)
    ultimately show ?thesis using Cons.IH [of "step w c"] by simp
  next
    case (Load k)
    with Cons.prems have "j \<notin> set (returned (step w c) cs)" by simp
    moreover have "urls (step w c) j = Some r"
      using Load Cons.prems by (simp add: urls_load)
    ultimately show ?thesis using Cons.IH [of "step w c"] by simp
  qed
qed

lemma dom_resolveId:
  "dom (urls (snd (resolveId w s))) = dom (urls w) \<union> ({fst (resolveId w s)} - {Undefined})"
  by (cases "matches_httpExp s") (auto simp add: resolveId_matches resolveId_no_match)

lemma dom_run:
  "dom (urls (run w cs)) = dom (urls w) \<union> (set (returned w cs) - {Undefined})"
proof (induction cs arbitrary: w)
  case Nil
  then show ?case by simp
next
  case (Cons c cs)
  show ?case
  proof (cases c)
    case (ResolveId s)
    then show ?thesis using Cons.IH [of "step w c"] dom_resolveId [of w s] by auto
  next
    case (Load k)
    then show ?thesis using Cons.IH [of "step w c"] by (simp add: urls_load)
  qed
qed

subsection \<open>The short identifier\<close>

lemma after_last_slash_no_slash: "CHR ''/'' \<notin> set (after_last_slash s)"
  using set_takeWhileD [of "CHR ''/''" "\<lambda>x. x \<noteq> CHR ''/''" "rev s"]
  by (auto simp add: after_last_slash_def)

lemma after_last_slash_is_suffix:
  assumes "CHR ''/'' \<in> set s"
  shows "\<exists>front. s = front @ CHR ''/'' # after_last_slash s"
proof -
  let ?P = "\<lambda>x. x \<noteq> CHR ''/''"
  from assms have "dropWhile ?P (rev s) \<noteq> []"
    by (simp add: dropWhile_eq_Nil_conv)
  moreover have "\<not> ?P (hd (dropWhile ?P (rev s)))"
    using calculation by (rule hd_dropWhile)
  ultimately obtain more where d: "dropWhile ?P (rev s) = CHR ''/'' # more"
    by (cases "dropWhile ?P (rev s)") auto
  have "rev s = takeWhile ?P (rev s) @ CHR ''/'' # more"
    using d by (metis takeWhile_dropWhile_id)
  then have "s = rev more @ CHR ''/'' # rev (takeWhile ?P (rev s))"
    by (metis rev_append rev.simps(2) rev_rev_ident append_assoc append_Cons append_Nil)
  then show ?thesis
    unfolding after_last_slash_def by blast
qed

lemma truncate_at_dot_no_dot: "CHR ''.'' \<notin> set (truncate_at_dot p)"
  using set_takeWhileD [of "CHR ''.''" "\<lambda>x. x \<noteq> CHR ''.''" p]
  by (auto simp add: truncate_at_dot_def)

lemma truncate_at_dot_is_prefix:
  "truncate_at_dot p = p \<or> (\<exists>rest. p = truncate_at_dot p @ CHR ''.'' # rest)"
proof (cases "dropWhile (\<lambda>x. x \<noteq> CHR ''.'') p")
  case Nil
  then have "takeWhile (\<lambda>x. x \<noteq> CHR ''.'') p = p"
    by (metis append_Nil2 takeWhile_dropWhile_id)
  then show ?thesis by (simp add: truncate_at_dot_def)
next
  case (Cons y rest)
  have "\<not> (hd (dropWhile (\<lambda>x. x \<noteq> CHR ''.'') p) \<noteq> CHR ''.'')"
    by (rule hd_dropWhile) (simp add: Cons)
  then have "y = CHR ''.''" by (simp add: Cons)
  then have "p = takeWhile (\<lambda>x. x \<noteq> CHR ''.'') p @ CHR ''.'' # rest"
    using Cons by (metis takeWhile_dropWhile_id)
  then show ?thesis
    unfolding truncate_at_dot_def by blast
qed

subsection \<open>Runs\<close>

lemma repeated_loads:
  "urls w (Str k) = Some r \<Longrightarrow>
   net_log (run w (replicate n (Load k))) =
     net_log w @ replicate n \<lparr>transport = (if isHttps r then Https else Http), target = url r\<rparr>"
proof (induction n arbitrary: w)
  case 0
  show ?case by simp
next
  case (Suc n)
  let ?req = "\<lparr>transport = (if isHttps r then Https else Http), target = url r\<rparr>"
  have st: "snd (load w k) = w\<lparr>net_log := net_log w @ [?req]\<rparr>"
    by (simp add: load_present [OF Suc.prems])
  then have "urls (step w (Load k)) (Str k) = Some r"
    using Suc.prems by simp
  from Suc.IH [OF this] show ?case
    by (simp add: st replicate_app_Cons_same)
qed

lemma net_log_run_resolves: "net_log (run w (map ResolveId ss)) = net_log w"
  by (induction ss arbitrary: w) (simp_all add: net_log_resolveId)

section \<open>Properties of the specification\<close>

text \<open>
  C1. For every specifier that matches the pattern, \<^verbatim>\<open>resolveId\<close> returns the substring of
  the specifier after its last \<^verbatim>\<open>/\<close>, truncated at the first \<^verbatim>\<open>.\<close> of that substring,
  whatever the state; for \<^verbatim>\<open>https://example.com/lib/util.js\<close> it returns \<^verbatim>\<open>util\<close>.
\<close>

theorem resolveId_returns_short_id:
  "(matches_httpExp s \<longrightarrow> fst (resolveId w s) = Str (truncate_at_dot (after_last_slash s))) \<and>
   fst (resolveId w ''https://example.com/lib/util.js'') = Str ''util''"
proof
  show "matches_httpExp s \<longrightarrow> fst (resolveId w s) = Str (truncate_at_dot (after_last_slash s))"
    by (simp add: resolveId_matches short_id_def)
  have "matches_httpExp ''https://example.com/lib/util.js''"
    by (simp add: matches_httpExp_def)
  then show "fst (resolveId w ''https://example.com/lib/util.js'') = Str ''util''"
    by (simp add: resolveId_matches short_id_def truncate_at_dot_def after_last_slash_def)
qed

theorem resolveId_returns_short_id_witness:
  "matches_httpExp ''http://cdn.example.org/a/b/mod.min.js'' \<and>
   fst (resolveId (http []) ''http://cdn.example.org/a/b/mod.min.js'') = Str ''mod''"
  using resolveId_returns_short_id [of "''http://cdn.example.org/a/b/mod.min.js''" "http []"]
  by (simp add: matches_httpExp_def truncate_at_dot_def after_last_slash_def)

text \<open>
  C2. When \<^verbatim>\<open>resolveId\<close> has returned an identifier for a specifier, and no later
  \<^verbatim>\<open>resolveId\<close> call has returned that identifier again (so that specifier is the one
  recorded for it), \<^verbatim>\<open>load\<close> of the identifier, after any further hook calls, returns
  the promise of one request and adds exactly that one request to the calls made. Its
  target is the specifier; its transport is HTTPS if the specifier begins with
  \<^verbatim>\<open>https://\<close> and HTTP otherwise.
\<close>

theorem load_requests_recorded_url:
  assumes "resolveId w0 s = (Str k, w1)"
      and "Str k \<notin> set (returned w1 cs)"
  shows "load (run w1 cs) k =
     (Promise \<lparr>transport = (if prefix ''https://'' s then Https else Http), target = s\<rparr>,
      (run w1 cs)\<lparr>net_log := net_log (run w1 cs) @
         [\<lparr>transport = (if prefix ''https://'' s then Https else Http), target = s\<rparr>]\<rparr>)"
proof -
  have m: "matches_httpExp s"
  proof (rule ccontr)
    assume "\<not> matches_httpExp s"
    then have "resolveId w0 s = (Undefined, w0)" by (rule resolveId_no_match)
    with assms(1) show False by simp
  qed
  from assms(1) have "urls w1 (Str k) = Some \<lparr>isHttps = prefix ''https://'' s, url = s\<rparr>"
    unfolding resolveId_matches [OF m] by auto
  then have "urls (run w1 cs) (Str k) = Some \<lparr>isHttps = prefix ''https://'' s, url = s\<rparr>"
    using assms(2) by (rule run_keeps_entry)
  then show ?thesis
    by (simp add: load_present)
qed

theorem load_requests_recorded_url_witness:
  "load (run (snd (resolveId (http []) ''https://example.com/lib/util.js''))
           [ResolveId ''http://example.com/other.js'', Load ''other'', ResolveId ''./x.js'']) ''util''
   = (Promise \<lparr>transport = Https, target = ''https://example.com/lib/util.js''\<rparr>,
      \<lparr>urls = urls (run (snd (resolveId (http []) ''https://example.com/lib/util.js''))
           [ResolveId ''http://example.com/other.js'', Load ''other'', ResolveId ''./x.js'']),
       net_log = [\<lparr>transport = Http, target = ''http://example.com/other.js''\<rparr>,
                  \<lparr>transport = Https, target = ''https://example.com/lib/util.js''\<rparr>]\<rparr>)"
proof -
  let ?s = "''https://example.com/lib/util.js''"
  let ?cs = "[ResolveId ''http://example.com/other.js'', Load ''other'', ResolveId ''./x.js'']"
  have m1: "matches_httpExp ?s" and m2: "matches_httpExp ''http://example.com/other.js''"
    and m3: "\<not> matches_httpExp ''./x.js''"
    by (simp_all add: matches_httpExp_def)
  have s1: "short_id ?s = ''util''" and s2: "short_id ''http://example.com/other.js'' = ''other''"
    by (simp_all add: short_id_def truncate_at_dot_def after_last_slash_def)
  have r: "resolveId (http []) ?s = (Str ''util'', snd (resolveId (http []) ?s))"
    by (simp add: resolveId_matches [OF m1] s1)
  have nr: "Str ''util'' \<notin> set (returned (snd (resolveId (http []) ?s)) ?cs)"
    by (simp add: resolveId_matches [OF m2] s2 resolveId_no_match [OF m3])
  show ?thesis
    using load_requests_recorded_url [OF r nr]
    by (simp add: resolveId_matches [OF m1] resolveId_matches [OF m2] resolveId_no_match [OF m3]
        s1 s2 load_def http_load_def http_def Let_def)
qed

text \<open>
  C3. For every specifier that does not match the pattern, \<^verbatim>\<open>resolveId\<close> returns
  \<^verbatim>\<open>undefined\<close> and leaves the state as it is; so it does for \<^verbatim>\<open>./local/file.js\<close>.
\<close>

theorem resolveId_no_match_undefined:
  "(\<not> matches_httpExp s \<longrightarrow> resolveId w s = (Undefined, w)) \<and>
   resolveId w ''./local/file.js'' = (Undefined, w)"
proof
  show "\<not> matches_httpExp s \<longrightarrow> resolveId w s = (Undefined, w)"
    by (simp add: resolveId_no_match)
  have "\<not> matches_httpExp ''./local/file.js''"
    by (simp add: matches_httpExp_def)
  then show "resolveId w ''./local/file.js'' = (Undefined, w)"
    by (rule resolveId_no_match)
qed

theorem resolveId_no_match_undefined_witness:
  "\<not> matches_httpExp ''ftp://example.com/a.js'' \<and>
   resolveId (http []) ''ftp://example.com/a.js'' = (Undefined, http [])"
  using resolveId_no_match_undefined [of "''ftp://example.com/a.js''" "http []"]
  by (simp add: matches_httpExp_def)

text \<open>
  C4. In a plugin started by \<^verbatim>\<open>http()\<close>, an identifier was never returned by an earlier
  \<^verbatim>\<open>resolveId\<close> call exactly when it is not a key of \<^verbatim>\<open>urls\<close>, and then \<^verbatim>\<open>load\<close>
  returns \<^verbatim>\<open>undefined\<close> and leaves the state, and with it the list of requests made, as
  it is. In any state, \<^verbatim>\<open>load\<close> of an identifier that is not a key does the same.
\<close>

theorem load_unknown_id_undefined:
  "(Str k \<notin> set (returned (http log) cs) \<longleftrightarrow> Str k \<notin> dom (urls (run (http log) cs))) \<and>
   (Str k \<notin> set (returned (http log) cs) \<longrightarrow>
      load (run (http log) cs) k = (Undefined, run (http log) cs)) \<and>
   (Str k \<notin> dom (urls w) \<longrightarrow>
      fst (load w k) = Undefined \<and> snd (load w k) = w \<and> net_log (snd (load w k)) = net_log w)"
proof -
  have keys: "Str k \<notin> set (returned (http log) cs) \<longleftrightarrow> Str k \<notin> dom (urls (run (http log) cs))"
    unfolding dom_run by (simp add: http_def)
  have absent: "load v k = (Undefined, v)" if "Str k \<notin> dom (urls v)" for v
    using that by (simp add: load_absent domIff)
  show ?thesis
    using keys absent [of "run (http log) cs"] absent [of w] by simp
qed

theorem load_unknown_id_undefined_witness:
  "Str ''other'' \<notin> set (returned (http []) [ResolveId ''https://example.com/lib/util.js'', Load ''util''])
   \<and> load (run (http []) [ResolveId ''https://example.com/lib/util.js'', Load ''util'']) ''other''
     = (Undefined, run (http []) [ResolveId ''https://example.com/lib/util.js'', Load ''util''])"
proof -
  let ?cs = "[ResolveId ''https://example.com/lib/util.js'', Load ''util'']"
  have m1: "matches_httpExp ''https://example.com/lib/util.js''"
    by (simp add: matches_httpExp_def)
  have s1: "short_id ''https://example.com/lib/util.js'' = ''util''"
    by (simp add: short_id_def truncate_at_dot_def after_last_slash_def)
  have nr: "Str ''other'' \<notin> set (returned (http []) ?cs)"
    by (simp add: resolveId_matches [OF m1] s1)
  show ?thesis
    using load_unknown_id_undefined [of "''other''" "[]" ?cs "http []"] nr by simp
qed

text \<open>
  C5, as amended. For every specifier that matches the pattern, \<^verbatim>\<open>resolveId\<close> returns a
  string, and that string is non-empty exactly when the substring after the last
  \<^verbatim>\<open>/\<close> of the specifier is non-empty and does not begin with \<^verbatim>\<open>.\<close>.
\<close>

theorem resolveId_id_nonempty_iff:
  assumes "matches_httpExp s"
  shows "\<exists>k. fst (resolveId w s) = Str k \<and>
     (k \<noteq> [] \<longleftrightarrow> (\<exists>c rest. after_last_slash s = c # rest \<and> c \<noteq> CHR ''.''))"
proof -
  have "truncate_at_dot (after_last_slash s) \<noteq> [] \<longleftrightarrow>
      (\<exists>c rest. after_last_slash s = c # rest \<and> c \<noteq> CHR ''.'')"
    by (cases "after_last_slash s") (simp_all add: truncate_at_dot_def)
  then show ?thesis
    by (simp add: resolveId_matches [OF assms] short_id_def)
qed

theorem resolveId_id_nonempty_iff_witness:
  "matches_httpExp ''https://example.com/.hidden'' \<and>
   fst (resolveId (http []) ''https://example.com/.hidden'') = Str [] \<and>
   matches_httpExp ''https://example.com/lib/util.js'' \<and>
   fst (resolveId (http []) ''https://example.com/lib/util.js'') \<noteq> Str []"
proof -
  have m1: "matches_httpExp ''https://example.com/.hidden''"
    and m2: "matches_httpExp ''https://example.com/lib/util.js''"
    by (simp_all add: matches_httpExp_def)
  have a1: "after_last_slash ''https://example.com/.hidden'' = ''.hidden''"
    and a2: "after_last_slash ''https://example.com/lib/util.js'' = ''util.js''"
    by (simp_all add: after_last_slash_def)
  show ?thesis
    using resolveId_id_nonempty_iff [OF m1, of "http []"] resolveId_id_nonempty_iff [OF m2, of "http []"]
    unfolding a1 a2 by (auto simp add: m1 m2)
qed

text \<open>
  The identifier can be empty: \<^verbatim>\<open>https://example.com/\<close> matches the pattern, nothing
  follows its last \<^verbatim>\<open>/\<close>, and \<^verbatim>\<open>resolveId\<close> returns the empty string for it.
\<close>

theorem resolveId_empty_id_counterexample:
  "matches_httpExp ''https://example.com/'' \<and>
   fst (resolveId (http []) ''https://example.com/'') = Str ''''"
proof -
  have m: "matches_httpExp ''https://example.com/''"
    by (simp add: matches_httpExp_def)
  show ?thesis
    by (simp add: m resolveId_matches [OF m] short_id_def truncate_at_dot_def after_last_slash_def)
qed

text \<open>
  C6. Two different matching specifiers whose texts after the last \<^verbatim>\<open>/\<close>, truncated at
  the first \<^verbatim>\<open>.\<close>, are equal get the same identifier. Resolving the first records the
  first under it; resolving the second next replaces that record by the second's;
  \<^verbatim>\<open>load\<close> of the identifier then requests the second specifier, and nothing else.
\<close>

theorem short_id_collision_overwrites:
  assumes "matches_httpExp a" and "matches_httpExp b" and "a \<noteq> b"
      and "truncate_at_dot (after_last_slash a) = truncate_at_dot (after_last_slash b)"
  shows "fst (resolveId w a) = Str (truncate_at_dot (after_last_slash a)) \<and>
         fst (resolveId w' b) = Str (truncate_at_dot (after_last_slash a)) \<and>
         urls (snd (resolveId w a)) (Str (truncate_at_dot (after_last_slash a)))
           = Some \<lparr>isHttps = prefix ''https://'' a, url = a\<rparr> \<and>
         urls (snd (resolveId (snd (resolveId w a)) b)) (Str (truncate_at_dot (after_last_slash a)))
           = Some \<lparr>isHttps = prefix ''https://'' b, url = b\<rparr> \<and>
         fst (load (snd (resolveId (snd (resolveId w a)) b)) (truncate_at_dot (after_last_slash a)))
           = Promise \<lparr>transport = (if prefix ''https://'' b then Https else Http), target = b\<rparr> \<and>
         net_log (snd (load (snd (resolveId (snd (resolveId w a)) b))
                        (truncate_at_dot (after_last_slash a))))
           = net_log w @ [\<lparr>transport = (if prefix ''https://'' b then Https else Http), target = b\<rparr>]"
proof -
  have sb: "short_id b = short_id a"
    using assms(4) by (simp add: short_id_def)
  have sa: "truncate_at_dot (after_last_slash a) = short_id a"
    by (simp add: short_id_def)
  have "urls (snd (resolveId (snd (resolveId w a)) b)) (Str (short_id a))
           = Some \<lparr>isHttps = prefix ''https://'' b, url = b\<rparr>"
    by (simp add: resolveId_matches [OF assms(1)] resolveId_matches [OF assms(2)] sb)
  from load_present [OF this] show ?thesis
    unfolding sa
    by (simp add: resolveId_matches [OF assms(1)] resolveId_matches [OF assms(2)] sb)
qed

theorem short_id_collision_overwrites_witness:
  "fst (resolveId (http []) ''https://a.example/x/util.js'') = Str ''util'' \<and>
   fst (resolveId (http []) ''http://b.example/y/util.min.js'') = Str ''util'' \<and>
   fst (load (snd (resolveId (snd (resolveId (http []) ''https://a.example/x/util.js''))
                 ''http://b.example/y/util.min.js'')) ''util'')
     = Promise \<lparr>transport = Http, target = ''http://b.example/y/util.min.js''\<rparr>"
proof -
  let ?a = "''https://a.example/x/util.js''" and ?b = "''http://b.example/y/util.min.js''"
  have ma: "matches_httpExp ?a" and mb: "matches_httpExp ?b"
    by (simp_all add: matches_httpExp_def)
  have ne: "?a \<noteq> ?b" by simp
  have sa: "truncate_at_dot (after_last_slash ?a) = ''util''"
    and sb: "truncate_at_dot (after_last_slash ?b) = ''util''"
    by (simp_all add: truncate_at_dot_def after_last_slash_def)
  have eq: "truncate_at_dot (after_last_slash ?a) = truncate_at_dot (after_last_slash ?b)"
    unfolding sa sb ..
  show ?thesis
    using short_id_collision_overwrites [OF ma mb ne eq, of "http []" "http []"] unfolding sa by simp
qed

text \<open>
  C7. A key of \<^verbatim>\<open>urls\<close> stays a key through every sequence of \<^verbatim>\<open>resolveId\<close> and
  \<^verbatim>\<open>load\<close> calls, and after any such sequence, earlier loads of it included, a
  \<^verbatim>\<open>load\<close> of it issues one more request. Nothing is cached: \<open>n\<close> loads of an
  identifier in a row issue \<open>n\<close> requests, each the one its record describes.
\<close>

theorem entries_kept_loads_refetch:
  "(j \<in> dom (urls w) \<longrightarrow> j \<in> dom (urls (run w cs))) \<and>
   (Str k \<in> dom (urls w) \<longrightarrow>
      (\<exists>req. load (run w cs) k =
         (Promise req, (run w cs)\<lparr>net_log := net_log (run w cs) @ [req]\<rparr>))) \<and>
   (urls w (Str k) = Some r \<longrightarrow>
      net_log (run w (replicate n (Load k))) =
        net_log w @ replicate n \<lparr>transport = (if isHttps r then Https else Http), target = url r\<rparr>)"
proof -
  have kept: "i \<in> dom (urls (run w cs))" if "i \<in> dom (urls w)" for i
    using that by (simp add: dom_run)
  have again: "\<exists>req. load (run w cs) k =
      (Promise req, (run w cs)\<lparr>net_log := net_log (run w cs) @ [req]\<rparr>)"
    if "Str k \<in> dom (urls w)"
  proof -
    from kept [OF that] obtain q where "urls (run w cs) (Str k) = Some q"
      by blast
    from load_present [OF this] show ?thesis
      by blast
  qed
  show ?thesis
    using kept [of j] again by (simp add: repeated_loads)
qed

theorem entries_kept_loads_refetch_witness:
  "Str ''util'' \<in> dom (urls (run (snd (resolveId (http []) ''https://example.com/lib/util.js''))
       [Load ''util'', ResolveId ''http://example.com/b.js'', Load ''util''])) \<and>
   net_log (run (snd (resolveId (http []) ''https://example.com/lib/util.js''))
       (replicate 3 (Load ''util''))) =
     replicate 3 \<lparr>transport = Https, target = ''https://example.com/lib/util.js''\<rparr>"
proof -
  let ?s = "''https://example.com/lib/util.js''"
  let ?w = "snd (resolveId (http []) ?s)"
  have m: "matches_httpExp ?s" by (simp add: matches_httpExp_def)
  have s: "short_id ?s = ''util''"
    by (simp add: short_id_def truncate_at_dot_def after_last_slash_def)
  have u: "urls ?w (Str ''util'') = Some \<lparr>isHttps = True, url = ?s\<rparr>"
    by (simp add: resolveId_matches [OF m] s)
  then have d: "Str ''util'' \<in> dom (urls ?w)" by blast
  have n: "net_log ?w = []"
    by (simp add: resolveId_matches [OF m] http_def)
  from entries_kept_loads_refetch [of "Str ''util''" ?w
      "[Load ''util'', ResolveId ''http://example.com/b.js'', Load ''util'']"
      "''util''" "\<lparr>isHttps = True, url = ?s\<rparr>" 3] d u n
  show ?thesis by simp
qed

text \<open>
  C8. \<^verbatim>\<open>resolveId\<close> makes no request. For a matching specifier the state it leaves is
  the old one with the entry of the returned identifier set to the new record; for any
  other specifier it is the old state. A sequence of \<^verbatim>\<open>resolveId\<close> calls alone leaves
  the list of requests as it was: only \<^verbatim>\<open>load\<close> adds to it.
\<close>

theorem resolveId_no_request:
  "net_log (snd (resolveId w s)) = net_log w \<and>
   snd (resolveId w s) =
     (if matches_httpExp s
      then w\<lparr>urls := (urls w)(fst (resolveId w s) \<mapsto> \<lparr>isHttps = prefix ''https://'' s, url = s\<rparr>)\<rparr>
      else w) \<and>
   net_log (run w (map ResolveId ss)) = net_log w"
  by (simp add: net_log_resolveId net_log_run_resolves resolveId_matches resolveId_no_match)

text \<open>
  C9. The identifier \<^verbatim>\<open>resolveId\<close> returns is the same in every state. A second call
  with the same specifier, right after the first, returns the same identifier and leaves
  the state the first call left.
\<close>

theorem resolveId_deterministic_idempotent:
  "fst (resolveId w1 s) = fst (resolveId w2 s) \<and>
   fst (resolveId (snd (resolveId w s)) s) = fst (resolveId w s) \<and>
   snd (resolveId (snd (resolveId w s)) s) = snd (resolveId w s)"
  by (cases "matches_httpExp s") (simp_all add: resolveId_matches resolveId_no_match)

text \<open>
  C10. The hooks of \<^verbatim>\<open>src/unnamed/part_000\<close> and those of \<^verbatim>\<open>src/index.js\<close> agree: in
  every state and on every argument they return the same value and leave the same state,
  so the same table and the same requests.
\<close>

theorem part_000_equivalent:
  "resolveId_part_000 w s = resolveId w s \<and> load_part_000 w k = load w k"
proof -
  have a: "httpExp_exec_part_000 = httpExp_exec"
    by (rule ext) (simp add: httpExp_exec_part_000_def httpExp_exec_def)
  have b: "http_load_part_000 = http_load"
    by (intro ext) (simp add: http_load_part_000_def http_load_def)
  show ?thesis
    unfolding resolveId_part_000_def resolveId_def load_part_000_def load_def a b by simp
qed

end
